theory Spec2Isabelle
  imports Main "HOL-Library.Word"
begin

section \<open>Outcome of a call\<close>

text \<open>
  The library (\<^verbatim>\<open>blocking_queue.h\<close>, namespace \<^verbatim>\<open>estd\<close>) raises no exception. A call
  either returns, or never returns because the calling thread sits in \<^verbatim>\<open>lock()\<close> on a
  mutex that is held, or reads \<^verbatim>\<open>front()\<close>/\<^verbatim>\<open>back()\<close> of an empty \<^verbatim>\<open>std::deque\<close>. The
  last two are values of \<open>stuck\<close>; a call that can end that way returns \<open>stuck + 'a\<close>.

  C++ member names end in an underscore, which Isabelle does not accept in a name: the
  underscore is dropped (\<^verbatim>\<open>count_\<close> is \<open>count\<close>, \<^verbatim>\<open>sig_\<close> is \<open>sig\<close>, \<^verbatim>\<open>data_\<close> is \<open>data\<close>),
  and \<^verbatim>\<open>e_\<close>, \<^verbatim>\<open>value_\<close>, \<^verbatim>\<open>detach_\<close>, \<^verbatim>\<open>end_\<close> are \<open>e_sem\<close>, \<open>value_it\<close>, \<open>detach_flag\<close>,
  \<open>end_flag\<close>.
\<close>

datatype stuck = Blocked | Empty_access

section \<open>class semaphore, one thread\<close>

text \<open>
  \<^verbatim>\<open>int count_\<close> is a 32-bit two's complement integer: \<open>32 word\<close>, read with \<open>sint\<close>;
  \<^verbatim>\<open>++count_\<close> and \<^verbatim>\<open>--count_\<close> wrap around. \<^verbatim>\<open>std::mutex sig_\<close> is its state, \<open>True\<close>
  when locked: \<^verbatim>\<open>sig_.unlock()\<close> leaves it free whoever held it, \<^verbatim>\<open>sig_.lock()\<close> takes it
  when it is free and never returns when it is held, since in a run of one thread no one
  else will free it. \<^verbatim>\<open>mtx_\<close> is taken by a scoped \<^verbatim>\<open>unique_lock\<close> at the start of
  \<^verbatim>\<open>signal\<close> and \<^verbatim>\<open>wait\<close> and released at their end, so it is free at every call of a
  run of one thread and is left out here; it is part of the state in the section on
  several threads. The C++ standard gives no meaning to unlocking a mutex the thread does
  not hold, nor to locking one it holds already; this is what the default mutex of the
  POSIX thread library does.
\<close>

record semaphore =
  count :: "32 word"
  sig :: bool

definition semaphore_new :: "32 word \<Rightarrow> semaphore" where
  "semaphore_new c = \<lparr>count = c, sig = False\<rparr>"

definition signal :: "semaphore \<Rightarrow> semaphore" where
  "signal s = (s\<lparr>count := count s + 1\<rparr>)\<lparr>sig := False\<rparr>"

text \<open>The loop \<^verbatim>\<open>while (count_ == 0) { sig_.lock(); }\<close>.\<close>

function wait_loop :: "semaphore \<Rightarrow> stuck + semaphore" where
  "wait_loop s =
     (if count s = 0
      then (if sig s then Inl Blocked else wait_loop (s\<lparr>sig := True\<rparr>))
      else Inr s)"
  by pat_completeness auto
termination
  by (relation "measure (\<lambda>s. if sig s then 0 else 1)") auto

definition wait :: "semaphore \<Rightarrow> stuck + semaphore" where
  "wait s =
     (case wait_loop s of
        Inl b \<Rightarrow> Inl b
      | Inr s' \<Rightarrow> Inr (s'\<lparr>count := count s' - 1\<rparr>))"

section \<open>class blocking_queue, one thread\<close>

text \<open>
  \<^verbatim>\<open>std::deque<T> data_\<close> is a list, front first. \<^verbatim>\<open>m_\<close> is locked and unlocked in pairs
  inside each member function and is left out, as \<^verbatim>\<open>mtx_\<close> is. \<^verbatim>\<open>size_t sz\<close> is never
  written or read by any member function; the implicit constructor leaves it
  uninitialised, so a fresh queue takes its value as a parameter.
\<close>

record 'a blocking_queue =
  data :: "'a list"
  e_sem :: semaphore
  sz :: nat

definition new_queue :: "nat \<Rightarrow> 'a blocking_queue" where
  "new_queue z = \<lparr>data = [], e_sem = semaphore_new 0, sz = z\<rparr>"

definition push_back :: "'a blocking_queue \<Rightarrow> 'a \<Rightarrow> 'a blocking_queue" where
  "push_back q t = (q\<lparr>data := data q @ [t]\<rparr>)\<lparr>e_sem := signal (e_sem q)\<rparr>"

definition push_front :: "'a blocking_queue \<Rightarrow> 'a \<Rightarrow> 'a blocking_queue" where
  "push_front q t = (q\<lparr>data := t # data q\<rparr>)\<lparr>e_sem := signal (e_sem q)\<rparr>"

definition pop_back :: "'a blocking_queue \<Rightarrow> stuck + ('a \<times> 'a blocking_queue)" where
  "pop_back q =
     (case wait (e_sem q) of
        Inl b \<Rightarrow> Inl b
      | Inr s \<Rightarrow>
          (if data q = [] then Inl Empty_access
           else Inr (last (data q), q\<lparr>data := butlast (data q), e_sem := s\<rparr>)))"

definition pop_front :: "'a blocking_queue \<Rightarrow> stuck + ('a \<times> 'a blocking_queue)" where
  "pop_front q =
     (case wait (e_sem q) of
        Inl b \<Rightarrow> Inl b
      | Inr s \<Rightarrow>
          (if data q = [] then Inl Empty_access
           else Inr (hd (data q), q\<lparr>data := tl (data q), e_sem := s\<rparr>)))"

definition size_bq :: "'a blocking_queue \<Rightarrow> nat" where
  "size_bq q = length (data q)"

section \<open>class consumer_iterator\<close>

text \<open>
  The iterator holds a reference \<^verbatim>\<open>bq_\<close> to its queue: every operation that goes through
  the reference takes the queue and returns it. \<^verbatim>\<open>T value_\<close> is default-constructed
  until the first pop assigns it: \<open>None\<close> until then.
\<close>

record 'a consumer_iterator =
  value_it :: "'a option"
  detach_flag :: bool
  end_flag :: bool

definition op_deref :: "'a consumer_iterator \<Rightarrow> 'a option" where
  "op_deref it = value_it it"

definition op_eq :: "'a consumer_iterator \<Rightarrow> 'a consumer_iterator \<Rightarrow> bool" where
  "op_eq a b = (end_flag a = end_flag b)"

definition op_neq :: "'a consumer_iterator \<Rightarrow> 'a consumer_iterator \<Rightarrow> bool" where
  "op_neq a b = (\<not> op_eq a b)"

definition detach :: "'a consumer_iterator \<Rightarrow> bool \<Rightarrow> 'a consumer_iterator" where
  "detach it enable = it\<lparr>detach_flag := enable\<rparr>"

definition is_detached :: "'a consumer_iterator \<Rightarrow> bool" where
  "is_detached it = detach_flag it"

definition op_inc ::
  "'a blocking_queue \<Rightarrow> 'a consumer_iterator \<Rightarrow>
     stuck + ('a blocking_queue \<times> 'a consumer_iterator)" where
  "op_inc q it =
     (if is_detached it \<and> size_bq q = 0 then Inr (q, it\<lparr>end_flag := True\<rparr>)
      else (case pop_front q of
              Inl b \<Rightarrow> Inl b
            | Inr (v, q') \<Rightarrow> Inr (q', it\<lparr>value_it := Some v\<rparr>)))"

definition op_dec ::
  "'a blocking_queue \<Rightarrow> 'a consumer_iterator \<Rightarrow>
     stuck + ('a blocking_queue \<times> 'a consumer_iterator)" where
  "op_dec q it =
     (if is_detached it \<and> size_bq q = 0 then Inr (q, it\<lparr>end_flag := True\<rparr>)
      else (case pop_back q of
              Inl b \<Rightarrow> Inl b
            | Inr (v, q') \<Rightarrow> Inr (q', it\<lparr>value_it := Some v\<rparr>)))"

text \<open>The constructor \<^verbatim>\<open>consumer_iterator(bq, advance, end)\<close>; \<^verbatim>\<open>detach_\<close> starts false.\<close>

definition consumer_iterator_new ::
  "'a blocking_queue \<Rightarrow> bool \<Rightarrow> bool \<Rightarrow>
     stuck + ('a blocking_queue \<times> 'a consumer_iterator)" where
  "consumer_iterator_new q advance end =
     (let it = \<lparr>value_it = None, detach_flag = False, end_flag = end\<rparr>
      in if end then Inr (q, it)
         else if advance then op_inc q it
         else op_dec q it)"

definition begin_it ::
  "'a blocking_queue \<Rightarrow> stuck + ('a blocking_queue \<times> 'a consumer_iterator)" where
  "begin_it q = consumer_iterator_new q True False"

definition end_it ::
  "'a blocking_queue \<Rightarrow> stuck + ('a blocking_queue \<times> 'a consumer_iterator)" where
  "end_it q = consumer_iterator_new q True True"

definition rbegin ::
  "'a blocking_queue \<Rightarrow> stuck + ('a blocking_queue \<times> 'a consumer_iterator)" where
  "rbegin q = consumer_iterator_new q False False"

definition rend ::
  "'a blocking_queue \<Rightarrow> stuck + ('a blocking_queue \<times> 'a consumer_iterator)" where
  "rend q = end_it q"

definition begin_detached ::
  "'a blocking_queue \<Rightarrow> stuck + ('a blocking_queue \<times> 'a consumer_iterator)" where
  "begin_detached q =
     (case begin_it q of
        Inl b \<Rightarrow> Inl b
      | Inr (q', bgn) \<Rightarrow> Inr (q', detach bgn True))"

definition rbegin_detached ::
  "'a blocking_queue \<Rightarrow> stuck + ('a blocking_queue \<times> 'a consumer_iterator)" where
  "rbegin_detached q =
     (case rbegin q of
        Inl b \<Rightarrow> Inl b
      | Inr (q', rbgn) \<Rightarrow> Inr (q', detach rbgn True))"

section \<open>Call sequences of one thread\<close>

text \<open>
  The claims speak of sequences of calls made by one thread: pushes followed by pops, any
  mix of the four queue operations, signals and waits on a gate. A sequence stops at the
  first call that does not return.
\<close>

fun pop_front_n :: "nat \<Rightarrow> 'a blocking_queue \<Rightarrow> stuck + ('a list \<times> 'a blocking_queue)" where
  "pop_front_n 0 q = Inr ([], q)"
| "pop_front_n (Suc n) q =
     (case pop_front q of
        Inl b \<Rightarrow> Inl b
      | Inr (v, q') \<Rightarrow>
          (case pop_front_n n q' of
             Inl b \<Rightarrow> Inl b
           | Inr (vs, q'') \<Rightarrow> Inr (v # vs, q'')))"

fun pop_back_n :: "nat \<Rightarrow> 'a blocking_queue \<Rightarrow> stuck + ('a list \<times> 'a blocking_queue)" where
  "pop_back_n 0 q = Inr ([], q)"
| "pop_back_n (Suc n) q =
     (case pop_back q of
        Inl b \<Rightarrow> Inl b
      | Inr (v, q') \<Rightarrow>
          (case pop_back_n n q' of
             Inl b \<Rightarrow> Inl b
           | Inr (vs, q'') \<Rightarrow> Inr (v # vs, q'')))"

datatype 'a queue_call = Push_back 'a | Push_front 'a | Pop_back | Pop_front

fun do_call :: "'a blocking_queue \<Rightarrow> 'a queue_call \<Rightarrow> stuck + 'a blocking_queue" where
  "do_call q (Push_back t) = Inr (push_back q t)"
| "do_call q (Push_front t) = Inr (push_front q t)"
| "do_call q Pop_back = (case pop_back q of Inl b \<Rightarrow> Inl b | Inr (v, q') \<Rightarrow> Inr q')"
| "do_call q Pop_front = (case pop_front q of Inl b \<Rightarrow> Inl b | Inr (v, q') \<Rightarrow> Inr q')"

fun run :: "'a blocking_queue \<Rightarrow> 'a queue_call list \<Rightarrow> stuck + 'a blocking_queue" where
  "run q [] = Inr q"
| "run q (c # cs) = (case do_call q c of Inl b \<Rightarrow> Inl b | Inr q' \<Rightarrow> run q' cs)"

fun is_push :: "'a queue_call \<Rightarrow> bool" where
  "is_push (Push_back t) = True"
| "is_push (Push_front t) = True"
| "is_push Pop_back = False"
| "is_push Pop_front = False"

datatype gate_call = Signal | Wait

fun do_gate_call :: "semaphore \<Rightarrow> gate_call \<Rightarrow> stuck + semaphore" where
  "do_gate_call s Signal = Inr (signal s)"
| "do_gate_call s Wait = wait s"

fun gate_run :: "semaphore \<Rightarrow> gate_call list \<Rightarrow> stuck + semaphore" where
  "gate_run s [] = Inr s"
| "gate_run s (c # cs) =
     (case do_gate_call s c of Inl b \<Rightarrow> Inl b | Inr s' \<Rightarrow> gate_run s' cs)"

text \<open>
  \<open>no_overflow s cs\<close>: in the run of \<open>cs\<close> from \<open>s\<close>, no \<^verbatim>\<open>signal()\<close> finds the counter at
  \<^verbatim>\<open>INT_MAX\<close>, where \<^verbatim>\<open>++count_\<close> overflows.
\<close>

fun no_overflow :: "semaphore \<Rightarrow> gate_call list \<Rightarrow> bool" where
  "no_overflow s [] = True"
| "no_overflow s (c # cs) =
     ((c = Signal \<longrightarrow> sint (count s) < 2 ^ 31 - 1) \<and>
      (case do_gate_call s c of Inl b \<Rightarrow> True | Inr s' \<Rightarrow> no_overflow s' cs))"

subsection \<open>The traversal loop of a detached iterator\<close>

text \<open>
  \<^verbatim>\<open>for (auto it = q.begin_detached(); it != q.end(); ++it) yield(*it);\<close>
  The result lists the values the loop body saw, with the queue and the iterator at the
  end. Every round either pops an element or puts the iterator in the end state, so the
  loop is a total function.
\<close>

lemma end_it_eq:
  "end_it q = Inr (q, \<lparr>value_it = None, detach_flag = False, end_flag = True\<rparr>)"
  by (simp add: end_it_def consumer_iterator_new_def)

lemma op_inc_measure:
  assumes "op_inc q it = Inr (q2, it2)" and "\<not> end_flag it"
  shows "2 * length (data q2) + (if end_flag it2 then 0 else 1)
           < 2 * length (data q) + (if end_flag it then 0 else (1::nat))"
  using assms
  by (auto simp: op_inc_def pop_front_def size_bq_def
           split: if_splits sum.splits prod.splits)

function traverse_loop ::
  "'a blocking_queue \<Rightarrow> 'a consumer_iterator \<Rightarrow>
     stuck + ('a option list \<times> 'a blocking_queue \<times> 'a consumer_iterator)" where
  "traverse_loop q it =
     (case end_it q of
        Inl b \<Rightarrow> Inl b
      | Inr (q1, e) \<Rightarrow>
          (if op_neq it e
           then (case op_inc q1 it of
                   Inl b \<Rightarrow> Inl b
                 | Inr (q2, it2) \<Rightarrow>
                     (case traverse_loop q2 it2 of
                        Inl b \<Rightarrow> Inl b
                      | Inr (ys, q3, it3) \<Rightarrow> Inr (op_deref it # ys, q3, it3)))
           else Inr ([], q1, it)))"
  by pat_completeness auto
termination
proof (relation "measure (\<lambda>(q, it). 2 * length (data q) + (if end_flag it then 0 else 1))")
  show "wf (measure (\<lambda>(q, it). 2 * length (data q) + (if end_flag it then 0 else (1::nat))))"
    by simp
next
  fix q :: "'a blocking_queue" and it :: "'a consumer_iterator" and x2 q1 e x2a q2 it2
  assume "end_it q = Inr x2" and "(q1, e) = x2" and "op_neq it e"
    and "op_inc q1 it = Inr x2a" and "(q2, it2) = x2a"
  then have "q1 = q" and "\<not> end_flag it" and "op_inc q it = Inr (q2, it2)"
    by (auto simp: end_it_eq op_neq_def op_eq_def)
  then show "((q2, it2), (q, it))
      \<in> measure (\<lambda>(q, it). 2 * length (data q) + (if end_flag it then 0 else 1))"
    using op_inc_measure [of q it q2 it2] by simp
qed

definition traverse_detached ::
  "'a blocking_queue \<Rightarrow>
     stuck + ('a option list \<times> 'a blocking_queue \<times> 'a consumer_iterator)" where
  "traverse_detached q =
     (case begin_detached q of
        Inl b \<Rightarrow> Inl b
      | Inr (q1, it) \<Rightarrow> traverse_loop q1 it)"

section \<open>class semaphore, several threads\<close>

text \<open>
  Each thread runs one call of \<^verbatim>\<open>signal()\<close> or \<^verbatim>\<open>wait()\<close> on a shared gate and stands at
  one statement of it; a step runs the statement of one thread, or the thread cannot move
  because the mutex it asks for is held. Here \<^verbatim>\<open>mtx_\<close> is part of the state: the
  \<^verbatim>\<open>unique_lock\<close> takes it on entry and releases it on return.
\<close>

record shared_semaphore = semaphore +
  mtx :: bool

definition shared_new :: "32 word \<Rightarrow> shared_semaphore" where
  "shared_new c = \<lparr>count = c, sig = False, mtx = False\<rparr>"

datatype position =
    Signal_lock_mtx
  | Signal_incr
  | Signal_unlock_sig
  | Signal_release_mtx
  | Wait_lock_mtx
  | Wait_test
  | Wait_lock_sig
  | Wait_decr
  | Wait_release_mtx
  | Returned

fun thread_step ::
  "shared_semaphore \<Rightarrow> position \<Rightarrow> (shared_semaphore \<times> position) option" where
  "thread_step g Signal_lock_mtx =
     (if mtx g then None else Some (g\<lparr>mtx := True\<rparr>, Signal_incr))"
| "thread_step g Signal_incr = Some (g\<lparr>count := count g + 1\<rparr>, Signal_unlock_sig)"
| "thread_step g Signal_unlock_sig = Some (g\<lparr>sig := False\<rparr>, Signal_release_mtx)"
| "thread_step g Signal_release_mtx = Some (g\<lparr>mtx := False\<rparr>, Returned)"
| "thread_step g Wait_lock_mtx =
     (if mtx g then None else Some (g\<lparr>mtx := True\<rparr>, Wait_test))"
| "thread_step g Wait_test = Some (g, if count g = 0 then Wait_lock_sig else Wait_decr)"
| "thread_step g Wait_lock_sig =
     (if sig g then None else Some (g\<lparr>sig := True\<rparr>, Wait_test))"
| "thread_step g Wait_decr = Some (g\<lparr>count := count g - 1\<rparr>, Wait_release_mtx)"
| "thread_step g Wait_release_mtx = Some (g\<lparr>mtx := False\<rparr>, Returned)"
| "thread_step g Returned = None"

inductive step ::
  "shared_semaphore \<times> position list \<Rightarrow> shared_semaphore \<times> position list \<Rightarrow> bool" where
  "i < length ps \<Longrightarrow> thread_step g (ps ! i) = Some (g', p') \<Longrightarrow>
   step (g, ps) (g', ps[i := p'])"

section \<open>Invariants\<close>

text \<open>
  The state between two calls of one thread: the counter is the length of the sequence
  modulo \<open>2 ^ 32\<close>, and \<^verbatim>\<open>sig_\<close> is free.
\<close>

definition mirrors :: "'a blocking_queue \<Rightarrow> bool" where
  "mirrors q \<longleftrightarrow> count (e_sem q) = of_nat (length (data q)) \<and> \<not> sig (e_sem q)"

text \<open>
  A configuration of threads in which the first thread is inside \<^verbatim>\<open>wait()\<close>, holds
  \<^verbatim>\<open>mtx_\<close> and has found the counter at 0, while every other thread is at the start of a
  call of \<^verbatim>\<open>signal()\<close> or \<^verbatim>\<open>wait()\<close>.
\<close>

definition wait_holds_mtx :: "shared_semaphore \<times> position list \<Rightarrow> bool" where
  "wait_holds_mtx c \<longleftrightarrow>
     (case c of (g, ps) \<Rightarrow>
        count g = 0 \<and> mtx g \<and>
        (case ps of [] \<Rightarrow> False
         | w # others \<Rightarrow>
             (w = Wait_test \<or> w = Wait_lock_sig) \<and>
             list_all (\<lambda>p. p = Signal_lock_mtx \<or> p = Wait_lock_mtx) others))"

section \<open>The gate in a run of one thread\<close>

lemma wait_loop_nonzero: "count s \<noteq> 0 \<Longrightarrow> wait_loop s = Inr s"
  by simp

lemma wait_loop_zero: "count s = 0 \<Longrightarrow> wait_loop s = Inl Blocked"
  by (cases "sig s") simp_all

lemma wait_nonzero: "count s \<noteq> 0 \<Longrightarrow> wait s = Inr (s\<lparr>count := count s - 1\<rparr>)"
  by (simp add: wait_def del: wait_loop.simps add: wait_loop_nonzero)

lemma wait_zero: "count s = 0 \<Longrightarrow> wait s = Inl Blocked"
  by (simp add: wait_def del: wait_loop.simps add: wait_loop_zero)

lemma wait_Inr: "wait s = Inr s' \<Longrightarrow> count s \<noteq> 0 \<and> s' = s\<lparr>count := count s - 1\<rparr>"
  by (cases "count s = 0") (simp_all add: wait_zero wait_nonzero)

lemma mirrors_new: "mirrors (new_queue z)"
  by (simp add: mirrors_def new_queue_def semaphore_new_def)

lemma mirrors_push_back: "mirrors q \<Longrightarrow> mirrors (push_back q t)"
  by (simp add: mirrors_def push_back_def signal_def)

lemma mirrors_push_front: "mirrors q \<Longrightarrow> mirrors (push_front q t)"
  by (simp add: mirrors_def push_front_def signal_def)

lemma of_nat_32_nonzero:
  "0 < n \<Longrightarrow> n < 2 ^ 32 \<Longrightarrow> (of_nat n :: 32 word) \<noteq> 0"
  using of_nat_neq_0 [where 'a = 32, of n] by simp

lemma of_nat_pred_32: "0 < n \<Longrightarrow> (of_nat n :: 32 word) - 1 = of_nat (n - 1)"
  by (cases n) simp_all

lemma sint_of_nat_32: "n < 2 ^ 31 \<Longrightarrow> sint (of_nat n :: 32 word) = int n"
proof -
  assume n: "n < 2 ^ 31"
  have "sint (of_nat n :: 32 word) = sint (word_of_int (int n) :: 32 word)"
    by simp
  also have "\<dots> = signed_take_bit 31 (int n)"
    by (simp only: sint_sbintrunc') simp
  also from n have "\<dots> = int n"
    by (intro signed_take_bit_int_eq_self) simp_all
  finally show ?thesis .
qed

lemma sint_succ_32: "sint (x::32 word) < 2 ^ 31 - 1 \<Longrightarrow> sint (x + 1) = sint x + 1"
proof -
  assume b: "sint x < 2 ^ 31 - 1"
  have lo: "- (2 ^ 31) \<le> sint x" using sint_ge [of x] by simp
  have "sint (x + 1) = signed_take_bit 31 (sint x + 1)"
    by (simp add: sint_word_add)
  also from b lo have "\<dots> = sint x + 1"
    by (intro signed_take_bit_int_eq_self) simp_all
  finally show ?thesis .
qed

lemma sint_pred_32: "- (2 ^ 31) < sint (x::32 word) \<Longrightarrow> sint (x - 1) = sint x - 1"
proof -
  assume b: "- (2 ^ 31) < sint x"
  have hi: "sint x < 2 ^ 31" using sint_lt [of x] by simp
  have "sint (x - 1) = signed_take_bit 31 (sint x - 1)"
    by (simp add: sint_word_diff)
  also from b hi have "\<dots> = sint x - 1"
    by (intro signed_take_bit_int_eq_self) simp_all
  finally show ?thesis .
qed

lemma pop_front_mirrors:
  assumes "mirrors q" and "data q \<noteq> []" and "length (data q) < 2 ^ 32"
  shows "pop_front q =
           Inr (hd (data q),
                q\<lparr>data := tl (data q),
                  e_sem := (e_sem q)\<lparr>count := of_nat (length (data q) - 1)\<rparr>\<rparr>)"
proof -
  from assms have pos: "0 < length (data q)" by simp
  from assms have c: "count (e_sem q) = of_nat (length (data q))"
    by (simp add: mirrors_def)
  with pos assms(3) have "count (e_sem q) \<noteq> 0"
    by (simp add: of_nat_32_nonzero)
  then have "wait (e_sem q) = Inr ((e_sem q)\<lparr>count := count (e_sem q) - 1\<rparr>)"
    by (rule wait_nonzero)
  with assms(2) c pos show ?thesis
    by (simp add: pop_front_def of_nat_pred_32)
qed

lemma pop_back_mirrors:
  assumes "mirrors q" and "data q \<noteq> []" and "length (data q) < 2 ^ 32"
  shows "pop_back q =
           Inr (last (data q),
                q\<lparr>data := butlast (data q),
                  e_sem := (e_sem q)\<lparr>count := of_nat (length (data q) - 1)\<rparr>\<rparr>)"
proof -
  from assms have pos: "0 < length (data q)" by simp
  from assms have c: "count (e_sem q) = of_nat (length (data q))"
    by (simp add: mirrors_def)
  with pos assms(3) have "count (e_sem q) \<noteq> 0"
    by (simp add: of_nat_32_nonzero)
  then have "wait (e_sem q) = Inr ((e_sem q)\<lparr>count := count (e_sem q) - 1\<rparr>)"
    by (rule wait_nonzero)
  with assms(2) c pos show ?thesis
    by (simp add: pop_back_def of_nat_pred_32)
qed

lemma mirrors_pop_front:
  assumes "mirrors q" and "pop_front q = Inr (v, q')"
  shows "mirrors q' \<and> sz q' = sz q"
proof -
  from assms(2) obtain s where w: "wait (e_sem q) = Inr s"
    and ne: "data q \<noteq> []" and q': "q' = q\<lparr>data := tl (data q), e_sem := s\<rparr>"
    by (auto simp: pop_front_def split: sum.splits if_splits)
  from w have s: "s = (e_sem q)\<lparr>count := count (e_sem q) - 1\<rparr>"
    by (simp add: wait_Inr)
  from ne have "0 < length (data q)" by simp
  with assms(1) s q' show ?thesis
    by (simp add: mirrors_def of_nat_pred_32)
qed

lemma mirrors_pop_back:
  assumes "mirrors q" and "pop_back q = Inr (v, q')"
  shows "mirrors q' \<and> sz q' = sz q"
proof -
  from assms(2) obtain s where w: "wait (e_sem q) = Inr s"
    and ne: "data q \<noteq> []" and q': "q' = q\<lparr>data := butlast (data q), e_sem := s\<rparr>"
    by (auto simp: pop_back_def split: sum.splits if_splits)
  from w have s: "s = (e_sem q)\<lparr>count := count (e_sem q) - 1\<rparr>"
    by (simp add: wait_Inr)
  from ne have "0 < length (data q)" by simp
  with assms(1) s q' show ?thesis
    by (simp add: mirrors_def of_nat_pred_32)
qed

lemma mirrors_do_call:
  assumes "mirrors q" and "do_call q c = Inr q'"
  shows "mirrors q' \<and> sz q' = sz q"
proof (cases c)
  case (Push_back t)
  with assms(2) have q': "q' = push_back q t" by simp
  with assms(1) have "mirrors q'" by (simp add: mirrors_push_back)
  moreover from q' have "sz q' = sz q" by (simp add: push_back_def)
  ultimately show ?thesis by simp
next
  case (Push_front t)
  with assms(2) have q': "q' = push_front q t" by simp
  with assms(1) have "mirrors q'" by (simp add: mirrors_push_front)
  moreover from q' have "sz q' = sz q" by (simp add: push_front_def)
  ultimately show ?thesis by simp
next
  case Pop_back
  with assms(2) obtain v where "pop_back q = Inr (v, q')"
    by (auto split: sum.splits)
  with assms(1) show ?thesis by (rule mirrors_pop_back)
next
  case Pop_front
  with assms(2) obtain v where "pop_front q = Inr (v, q')"
    by (auto split: sum.splits)
  with assms(1) show ?thesis by (rule mirrors_pop_front)
qed

lemma mirrors_run:
  "mirrors q \<Longrightarrow> run q cs = Inr q' \<Longrightarrow> mirrors q' \<and> sz q' = sz q"
proof (induction cs arbitrary: q)
  case Nil
  then show ?case by simp
next
  case (Cons c cs)
  from Cons.prems(2) obtain q1 where c: "do_call q c = Inr q1" and r: "run q1 cs = Inr q'"
    by (auto split: sum.splits)
  from Cons.prems(1) c have "mirrors q1 \<and> sz q1 = sz q" by (rule mirrors_do_call)
  with Cons.IH [of q1] r show ?case by simp
qed


lemma data_foldl_push_back: "data (foldl push_back q vs) = data q @ vs"
  by (induction vs arbitrary: q) (simp_all add: push_back_def)

lemma sz_foldl_push_back: "sz (foldl push_back q vs) = sz q"
  by (induction vs arbitrary: q) (simp_all add: push_back_def)

lemma mirrors_foldl_push_back: "mirrors q \<Longrightarrow> mirrors (foldl push_back q vs)"
  by (induction vs arbitrary: q) (simp_all add: mirrors_push_back)

lemma count_foldl_push_back:
  "count (e_sem (foldl push_back (new_queue z) vs)) = of_nat (length vs)"
  using mirrors_foldl_push_back [OF mirrors_new, of z vs]
  by (simp add: mirrors_def data_foldl_push_back new_queue_def)

lemma count_two_32:
  "count (e_sem (foldl push_back (new_queue z) (replicate (2 ^ 32) v))) = 0"
proof -
  have "count (e_sem (foldl push_back (new_queue z) (replicate (2 ^ 32) v)))
          = (of_nat (length (replicate ((2::nat) ^ 32) v)) :: 32 word)"
    by (rule count_foldl_push_back)
  also have "\<dots> = of_nat (2 ^ 32)"
    by (simp only: length_replicate)
  also have "\<dots> = 0" by simp
  finally show ?thesis .
qed

section \<open>Order of the elements\<close>

lemma pop_front_n_mirrors:
  "mirrors q \<Longrightarrow> length (data q) < 2 ^ 32 \<Longrightarrow> n \<le> length (data q) \<Longrightarrow>
   pop_front_n n q =
     Inr (take n (data q),
          q\<lparr>data := drop n (data q),
            e_sem := (e_sem q)\<lparr>count := of_nat (length (data q) - n)\<rparr>\<rparr>)"
proof (induction n arbitrary: q)
  case 0
  then show ?case by (simp add: mirrors_def)
next
  case (Suc n)
  let ?q' = "q\<lparr>data := tl (data q),
               e_sem := (e_sem q)\<lparr>count := of_nat (length (data q) - 1)\<rparr>\<rparr>"
  from Suc.prems have ne: "data q \<noteq> []" by auto
  with Suc.prems have pf: "pop_front q = Inr (hd (data q), ?q')"
    by (simp add: pop_front_mirrors)
  from Suc.prems have m: "mirrors ?q'" by (simp add: mirrors_def)
  from Suc.prems have "length (data ?q') < 2 ^ 32" and "n \<le> length (data ?q')"
    by simp_all
  with m have "pop_front_n n ?q' =
     Inr (take n (data ?q'),
          ?q'\<lparr>data := drop n (data ?q'),
            e_sem := (e_sem ?q')\<lparr>count := of_nat (length (data ?q') - n)\<rparr>\<rparr>)"
    by (rule Suc.IH)
  with pf ne show ?case
    by (simp add: take_Suc drop_Suc)
qed

lemma pop_back_n_mirrors:
  "mirrors q \<Longrightarrow> length (data q) < 2 ^ 32 \<Longrightarrow> n \<le> length (data q) \<Longrightarrow>
   pop_back_n n q =
     Inr (take n (rev (data q)),
          q\<lparr>data := take (length (data q) - n) (data q),
            e_sem := (e_sem q)\<lparr>count := of_nat (length (data q) - n)\<rparr>\<rparr>)"
proof (induction n arbitrary: q)
  case 0
  then show ?case by (simp add: mirrors_def)
next
  case (Suc n)
  let ?q' = "q\<lparr>data := butlast (data q),
               e_sem := (e_sem q)\<lparr>count := of_nat (length (data q) - 1)\<rparr>\<rparr>"
  from Suc.prems have ne: "data q \<noteq> []" by auto
  with Suc.prems have pf: "pop_back q = Inr (last (data q), ?q')"
    by (simp add: pop_back_mirrors)
  from Suc.prems have m: "mirrors ?q'" by (simp add: mirrors_def)
  from Suc.prems have "length (data ?q') < 2 ^ 32" and "n \<le> length (data ?q')"
    by simp_all
  with m have "pop_back_n n ?q' =
     Inr (take n (rev (data ?q')),
          ?q'\<lparr>data := take (length (data ?q') - n) (data ?q'),
            e_sem := (e_sem ?q')\<lparr>count := of_nat (length (data ?q') - n)\<rparr>\<rparr>)"
    by (rule Suc.IH)
  moreover from ne have "take (Suc n) (rev (data q)) = last (data q) # take n (rev (butlast (data q)))"
    by (cases "data q" rule: rev_cases) simp_all
  moreover have "take (length (data q) - 1 - n) (butlast (data q)) = take (length (data q) - Suc n) (data q)"
    by (simp add: butlast_conv_take)
  ultimately show ?case using pf ne
    by simp
qed

lemma pop_front_n_blocked: "0 < n \<Longrightarrow> count (e_sem q) = 0 \<Longrightarrow> pop_front_n n q = Inl Blocked"
  by (cases n) (simp_all add: pop_front_def wait_zero)

lemma pop_back_n_blocked: "0 < n \<Longrightarrow> count (e_sem q) = 0 \<Longrightarrow> pop_back_n n q = Inl Blocked"
  by (cases n) (simp_all add: pop_back_def wait_zero)

text \<open>
  Claim C1, as the code has it. For every list \<open>vs\<close> of fewer than \<open>2 ^ 32\<close> values:
  \<^verbatim>\<open>push_back\<close> of each value of \<open>vs\<close> in turn on a fresh queue, then \<open>length vs\<close> calls
  of \<^verbatim>\<open>pop_front()\<close>, all in one thread, return exactly \<open>vs\<close> in that order, and leave the
  queue as it was when fresh.
\<close>

theorem fifo:
  assumes "length vs < 2 ^ 32"
  shows "pop_front_n (length vs) (foldl push_back (new_queue z) vs) = Inr (vs, new_queue z)"
proof -
  let ?q = "foldl push_back (new_queue z) vs"
  have d: "data ?q = vs" by (simp add: data_foldl_push_back new_queue_def)
  have m: "mirrors ?q" by (simp add: mirrors_foldl_push_back mirrors_new)
  then have s: "\<not> sig (e_sem ?q)" by (simp add: mirrors_def)
  have z: "sz ?q = z" by (simp add: sz_foldl_push_back new_queue_def)
  from m d assms have "pop_front_n (length vs) ?q =
     Inr (take (length vs) (data ?q),
          ?q\<lparr>data := drop (length vs) (data ?q),
            e_sem := (e_sem ?q)\<lparr>count := of_nat (length (data ?q) - length vs)\<rparr>\<rparr>)"
    by (intro pop_front_n_mirrors) simp_all
  moreover have "?q\<lparr>data := drop (length vs) (data ?q),
            e_sem := (e_sem ?q)\<lparr>count := of_nat (length (data ?q) - length vs)\<rparr>\<rparr> = new_queue z"
    using d s z by (simp add: new_queue_def semaphore_new_def)
  ultimately show ?thesis using d by simp
qed

theorem fifo_witness:
  "pop_front_n 3 (foldl push_back (new_queue 9) [10, 20, 30 :: nat]) = Inr ([10, 20, 30], new_queue 9)"
  using fifo [of "[10, 20, 30 :: nat]" 9] by (simp add: numeral_3_eq_3)

text \<open>
  Claim C1 as stated, for every \<open>n\<close>, fails at \<open>n = 2 ^ 32\<close>: the 32-bit counter of the gate
  has wrapped to 0 after the pushes, and the first \<^verbatim>\<open>pop_front()\<close> never returns.
\<close>

theorem fifo_counterexample:
  "pop_front_n (2 ^ 32) (foldl push_back (new_queue 0) (replicate (2 ^ 32) (0::nat)))
     = Inl Blocked"
proof -
  have "(0::nat) < 2 ^ 32" by simp
  then show ?thesis
    using count_two_32 [of 0 "0::nat"] by (rule pop_front_n_blocked)
qed

text \<open>
  Claim C2, as the code has it. For every list \<open>vs\<close> of fewer than \<open>2 ^ 32\<close> values:
  \<^verbatim>\<open>push_back\<close> of each value of \<open>vs\<close> in turn on a fresh queue, then \<open>length vs\<close> calls
  of \<^verbatim>\<open>pop_back()\<close>, all in one thread, return exactly the values of \<open>vs\<close> in reverse
  order, and leave the queue as it was when fresh.
\<close>

theorem lifo:
  assumes "length vs < 2 ^ 32"
  shows "pop_back_n (length vs) (foldl push_back (new_queue z) vs) = Inr (rev vs, new_queue z)"
proof -
  let ?q = "foldl push_back (new_queue z) vs"
  have d: "data ?q = vs" by (simp add: data_foldl_push_back new_queue_def)
  have m: "mirrors ?q" by (simp add: mirrors_foldl_push_back mirrors_new)
  then have s: "\<not> sig (e_sem ?q)" by (simp add: mirrors_def)
  have z: "sz ?q = z" by (simp add: sz_foldl_push_back new_queue_def)
  from m d assms have "pop_back_n (length vs) ?q =
     Inr (take (length vs) (rev (data ?q)),
          ?q\<lparr>data := take (length (data ?q) - length vs) (data ?q),
            e_sem := (e_sem ?q)\<lparr>count := of_nat (length (data ?q) - length vs)\<rparr>\<rparr>)"
    by (intro pop_back_n_mirrors) simp_all
  moreover have "?q\<lparr>data := take (length (data ?q) - length vs) (data ?q),
            e_sem := (e_sem ?q)\<lparr>count := of_nat (length (data ?q) - length vs)\<rparr>\<rparr> = new_queue z"
    using d s z by (simp add: new_queue_def semaphore_new_def)
  ultimately show ?thesis using d by simp
qed

theorem lifo_witness:
  "pop_back_n 3 (foldl push_back (new_queue 9) [10, 20, 30 :: nat]) = Inr ([30, 20, 10], new_queue 9)"
  using lifo [of "[10, 20, 30 :: nat]" 9] by (simp add: numeral_3_eq_3)

text \<open>
  Claim C2 as stated, for every \<open>n\<close>, fails at \<open>n = 2 ^ 32\<close>: the first \<^verbatim>\<open>pop_back()\<close>
  finds the counter at 0 and never returns.
\<close>

theorem lifo_counterexample:
  "pop_back_n (2 ^ 32) (foldl push_back (new_queue 0) (replicate (2 ^ 32) (0::nat)))
     = Inl Blocked"
proof -
  have "(0::nat) < 2 ^ 32" by simp
  then show ?thesis
    using count_two_32 [of 0 "0::nat"] by (rule pop_back_n_blocked)
qed

section \<open>Traversal with a detached iterator\<close>

lemma op_inc_detached_empty:
  "detach_flag it \<Longrightarrow> data q = [] \<Longrightarrow> op_inc q it = Inr (q, it\<lparr>end_flag := True\<rparr>)"
  by (simp add: op_inc_def is_detached_def size_bq_def)

lemma op_inc_mirrors:
  assumes "mirrors q" and "data q \<noteq> []" and "length (data q) < 2 ^ 32"
  shows "op_inc q it =
           Inr (q\<lparr>data := tl (data q),
                  e_sem := (e_sem q)\<lparr>count := of_nat (length (data q) - 1)\<rparr>\<rparr>,
                it\<lparr>value_it := Some (hd (data q))\<rparr>)"
  using assms by (simp add: op_inc_def size_bq_def pop_front_mirrors)

lemma traverse_loop_end:
  "end_flag it \<Longrightarrow> traverse_loop q it = Inr ([], q, it)"
  by (subst traverse_loop.simps) (simp add: end_it_eq op_neq_def op_eq_def)

lemma traverse_loop_step:
  "\<not> end_flag it \<Longrightarrow> op_inc q it = Inr (q2, it2) \<Longrightarrow>
   traverse_loop q it =
     (case traverse_loop q2 it2 of
        Inl b \<Rightarrow> Inl b
      | Inr (ys, q3, it3) \<Rightarrow> Inr (op_deref it # ys, q3, it3))"
  by (subst traverse_loop.simps) (simp add: end_it_eq op_neq_def op_eq_def)

lemma traverse_loop_drain:
  "mirrors q \<Longrightarrow> data q = xs \<Longrightarrow> length xs < 2 ^ 32 \<Longrightarrow> detach_flag it \<Longrightarrow> \<not> end_flag it \<Longrightarrow>
   traverse_loop q it =
     Inr (value_it it # map Some xs,
          q\<lparr>data := [], e_sem := (e_sem q)\<lparr>count := 0\<rparr>\<rparr>,
          it\<lparr>value_it := (if xs = [] then value_it it else Some (last xs)), end_flag := True\<rparr>)"
proof (induction xs arbitrary: q it)
  case Nil
  from Nil.prems have q: "q\<lparr>data := [], e_sem := (e_sem q)\<lparr>count := 0\<rparr>\<rparr> = q"
    by (simp add: mirrors_def)
  from Nil.prems have "op_inc q it = Inr (q, it\<lparr>end_flag := True\<rparr>)"
    by (simp add: op_inc_detached_empty)
  with Nil.prems(5) have "traverse_loop q it =
     (case traverse_loop q (it\<lparr>end_flag := True\<rparr>) of
        Inl b \<Rightarrow> Inl b
      | Inr (ys, q3, it3) \<Rightarrow> Inr (op_deref it # ys, q3, it3))"
    by (rule traverse_loop_step)
  then show ?case
    using q by (simp add: traverse_loop_end op_deref_def del: traverse_loop.simps)
next
  case (Cons x xs)
  let ?q' = "q\<lparr>data := tl (data q),
               e_sem := (e_sem q)\<lparr>count := of_nat (length (data q) - 1)\<rparr>\<rparr>"
  let ?it' = "it\<lparr>value_it := Some (hd (data q))\<rparr>"
  from Cons.prems have "op_inc q it = Inr (?q', ?it')"
    by (intro op_inc_mirrors) auto
  with Cons.prems(5) have step: "traverse_loop q it =
     (case traverse_loop ?q' ?it' of
        Inl b \<Rightarrow> Inl b
      | Inr (ys, q3, it3) \<Rightarrow> Inr (op_deref it # ys, q3, it3))"
    by (rule traverse_loop_step)
  from Cons.prems have m: "mirrors ?q'" by (simp add: mirrors_def)
  from Cons.prems have "data ?q' = xs" "length xs < 2 ^ 32" "detach_flag ?it'" "\<not> end_flag ?it'"
    by simp_all
  with m have "traverse_loop ?q' ?it' =
     Inr (value_it ?it' # map Some xs,
          ?q'\<lparr>data := [], e_sem := (e_sem ?q')\<lparr>count := 0\<rparr>\<rparr>,
          ?it'\<lparr>value_it := (if xs = [] then value_it ?it' else Some (last xs)), end_flag := True\<rparr>)"
    by (rule Cons.IH)
  with step Cons.prems(2) show ?case
    by (simp add: op_deref_def del: traverse_loop.simps)
qed

lemma begin_detached_mirrors:
  assumes "mirrors q" and "data q \<noteq> []" and "length (data q) < 2 ^ 32"
  shows "begin_detached q =
           Inr (q\<lparr>data := tl (data q),
                  e_sem := (e_sem q)\<lparr>count := of_nat (length (data q) - 1)\<rparr>\<rparr>,
                \<lparr>value_it = Some (hd (data q)), detach_flag = True, end_flag = False\<rparr>)"
  using assms
  by (simp add: begin_detached_def begin_it_def consumer_iterator_new_def op_inc_mirrors detach_def)

text \<open>
  Claim C5, as the code has it. A queue reached from a fresh one by any completed calls and
  holding \<open>k\<close> elements, \<open>1 \<le> k < 2 ^ 32\<close>, is traversed in full by the loop of a detached
  iterator (\<^verbatim>\<open>begin_detached()\<close>, then \<^verbatim>\<open>operator++\<close> until the iterator equals \<^verbatim>\<open>end()\<close>, one
  thread): the loop yields exactly the \<open>k\<close> elements, front to back, and stops with the
  iterator in the end state and the queue empty.
\<close>

theorem detached_drain:
  assumes "run (new_queue z) cs = Inr q" and "data q \<noteq> []" and "length (data q) < 2 ^ 32"
  shows "traverse_detached q =
           Inr (map Some (data q), new_queue z,
                \<lparr>value_it = Some (last (data q)), detach_flag = True, end_flag = True\<rparr>)"
proof -
  from assms(1) have m: "mirrors q" and z: "sz q = z"
    using mirrors_run [OF mirrors_new, of z cs q] by (simp_all add: new_queue_def)
  let ?q' = "q\<lparr>data := tl (data q),
               e_sem := (e_sem q)\<lparr>count := of_nat (length (data q) - 1)\<rparr>\<rparr>"
  let ?it = "\<lparr>value_it = Some (hd (data q)), detach_flag = True, end_flag = False\<rparr>"
  from m assms(2,3) have b: "begin_detached q = Inr (?q', ?it)"
    by (rule begin_detached_mirrors)
  from m have m': "mirrors ?q'" by (simp add: mirrors_def)
  have "traverse_loop ?q' ?it =
     Inr (value_it ?it # map Some (tl (data q)),
          ?q'\<lparr>data := [], e_sem := (e_sem ?q')\<lparr>count := 0\<rparr>\<rparr>,
          ?it\<lparr>value_it := (if tl (data q) = [] then value_it ?it else Some (last (tl (data q)))),
               end_flag := True\<rparr>)"
    using m' assms(3) by (intro traverse_loop_drain) simp_all
  moreover have "?q'\<lparr>data := [], e_sem := (e_sem ?q')\<lparr>count := 0\<rparr>\<rparr> = new_queue z"
    using m z by (simp add: new_queue_def semaphore_new_def mirrors_def)
  moreover from assms(2) obtain x xs where "data q = x # xs"
    by (cases "data q") simp_all
  ultimately show ?thesis using b
    by (simp add: traverse_detached_def del: traverse_loop.simps)
qed

theorem detached_drain_witness:
  "traverse_detached (push_front (push_back (push_back (new_queue 4) (10::nat)) 20) 30) =
     Inr ([Some 30, Some 10, Some 20], new_queue 4,
          \<lparr>value_it = Some 20, detach_flag = True, end_flag = True\<rparr>)"
  using detached_drain [of 4 "[Push_back 10, Push_back 20, Push_front (30::nat)]"
      "push_front (push_back (push_back (new_queue 4) 10) 20) 30"]
  by (simp add: push_back_def push_front_def new_queue_def)

text \<open>
  Claim C5 as stated, for every \<open>k \<ge> 1\<close>, fails at \<open>k = 2 ^ 32\<close>: the counter of the gate has
  wrapped to 0, and the pop inside \<^verbatim>\<open>begin_detached()\<close> never returns.
\<close>

theorem detached_drain_counterexample:
  "traverse_detached (foldl push_back (new_queue 0) (replicate (2 ^ 32) (0::nat))) = Inl Blocked"
proof -
  let ?q = "foldl push_back (new_queue 0) (replicate (2 ^ 32) (0::nat))"
  have "wait (e_sem ?q) = Inl Blocked"
    using count_two_32 [of 0 "0::nat"] by (rule wait_zero)
  then have "pop_front ?q = Inl Blocked"
    by (simp add: pop_front_def)
  then show ?thesis
    by (simp add: traverse_detached_def begin_detached_def begin_it_def
        consumer_iterator_new_def op_inc_def is_detached_def del: traverse_loop.simps)
qed

section \<open>The gate and the sequence\<close>

text \<open>
  Claim C6, as the code has it. Starting from a fresh queue, after every completed sequence
  of \<^verbatim>\<open>push_back\<close>, \<^verbatim>\<open>push_front\<close>, \<^verbatim>\<open>pop_back\<close> and \<^verbatim>\<open>pop_front\<close> calls of one thread, the
  counter of the gate, read as the \<^verbatim>\<open>int\<close> it is, equals the number of elements stored,
  provided that number is at most \<^verbatim>\<open>INT_MAX\<close> \<open>= 2 ^ 31 - 1\<close>.
\<close>

theorem gate_mirrors_sequence:
  assumes "run (new_queue z) cs = Inr q" and "length (data q) < 2 ^ 31"
  shows "sint (count (e_sem q)) = int (length (data q))"
proof -
  from assms(1) have "mirrors q"
    using mirrors_run [OF mirrors_new, of z cs q] by simp
  then have "count (e_sem q) = of_nat (length (data q))"
    by (simp add: mirrors_def)
  with assms(2) show ?thesis
    by (simp add: sint_of_nat_32)
qed

theorem gate_mirrors_sequence_witness:
  "sint (count (e_sem (push_front (new_queue 0) (7::nat)))) = 1"
  using gate_mirrors_sequence
    [of 0 "[Push_back 5, Pop_front, Push_front (7::nat)]" "push_front (new_queue 0) 7"]
  by (simp add: push_back_def push_front_def pop_front_def new_queue_def semaphore_new_def
      signal_def wait_def)

text \<open>
  Claim C6 as stated fails after \<open>2 ^ 31\<close> pushes on a fresh queue: the sequence holds
  \<open>2 ^ 31\<close> elements and the counter reads \<open>- (2 ^ 31)\<close>.
\<close>

theorem gate_mirrors_sequence_counterexample:
  "sint (count (e_sem (foldl push_back (new_queue 0) (replicate (2 ^ 31) (0::nat)))))
     \<noteq> int (length (data (foldl push_back (new_queue 0) (replicate (2 ^ 31) (0::nat)))))"
proof -
  let ?q = "foldl push_back (new_queue 0) (replicate (2 ^ 31) (0::nat))"
  have "count (e_sem ?q) = (of_nat (length (replicate ((2::nat) ^ 31) (0::nat))) :: 32 word)"
    by (rule count_foldl_push_back)
  also have "\<dots> = of_nat (2 ^ 31)"
    by (simp only: length_replicate)
  finally have "sint (count (e_sem ?q)) = - (2 ^ 31)"
    by simp
  moreover have "0 \<le> int (length (data ?q))"
    by simp
  ultimately show ?thesis
    by (simp del: of_nat_0_le_iff)
qed

section \<open>size()\<close>

lemma size_do_call_push:
  "is_push c \<Longrightarrow> \<exists>q'. do_call q c = Inr q' \<and> size_bq q' = Suc (size_bq q)"
  by (cases c) (simp_all add: size_bq_def push_back_def push_front_def)

lemma size_run_pushes:
  "list_all is_push cs \<Longrightarrow> \<exists>q'. run q cs = Inr q' \<and> size_bq q' = size_bq q + length cs"
proof (induction cs arbitrary: q)
  case Nil
  then show ?case by simp
next
  case (Cons c cs)
  then obtain q1 where c: "do_call q c = Inr q1" and s: "size_bq q1 = Suc (size_bq q)"
    using size_do_call_push [of c q] by auto
  from Cons.prems have "list_all is_push cs" by simp
  then obtain q' where "run q1 cs = Inr q'" and "size_bq q' = size_bq q1 + length cs"
    using Cons.IH [of q1] by auto
  with c s show ?case by simp
qed

text \<open>
  Claim C7. \<^verbatim>\<open>size()\<close> returns the length of the sequence as it is at the call; the member
  \<^verbatim>\<open>sz\<close> has no effect on it; and after \<open>N\<close> calls of \<^verbatim>\<open>push_back\<close> or \<^verbatim>\<open>push_front\<close> on
  a fresh queue, with no pop, \<^verbatim>\<open>size()\<close> is \<open>N\<close>.
\<close>

theorem size_accuracy:
  assumes "list_all is_push cs"
  shows "size_bq (q :: 'a blocking_queue) = length (data q) \<and>
         size_bq (q\<lparr>sz := k\<rparr>) = size_bq q \<and>
         (\<exists>q' :: 'a blocking_queue. run (new_queue z) cs = Inr q' \<and> size_bq q' = length cs)"
proof -
  from assms size_run_pushes [of cs "new_queue z"]
  obtain q' where "run (new_queue z) cs = Inr q'" and "size_bq q' = length cs"
    by (auto simp: size_bq_def new_queue_def)
  then show ?thesis
    by (auto simp: size_bq_def)
qed

theorem size_accuracy_witness:
  "size_bq (push_front (push_back (new_queue 3) (10::nat)) 20) = 2 \<and>
   size_bq ((push_front (push_back (new_queue 3) (10::nat)) 20)\<lparr>sz := 77\<rparr>) = 2"
  using size_accuracy [of "[Push_back 10, Push_front (20::nat)]"
      "push_front (push_back (new_queue 3) 10) 20" 77 3]
  by (simp add: push_back_def push_front_def new_queue_def size_bq_def)

section \<open>Sign of the counter\<close>

lemma gate_call_nonneg:
  assumes "0 \<le> sint (count s)" and "do_gate_call s c = Inr s'"
    and "c = Signal \<longrightarrow> sint (count s) < 2 ^ 31 - 1"
  shows "0 \<le> sint (count s')"
proof (cases c)
  case Signal
  with assms show ?thesis by (auto simp: signal_def sint_succ_32)
next
  case Wait
  with assms(2) have nz: "count s \<noteq> 0" and s': "s' = s\<lparr>count := count s - 1\<rparr>"
    by (simp_all add: wait_Inr)
  from nz have "sint (count s) \<noteq> 0" by (simp add: signed_eq_0_iff)
  with assms(1) have "0 < sint (count s)" by simp
  with s' show ?thesis by (simp add: sint_pred_32)
qed

lemma gate_run_nonneg:
  "0 \<le> sint (count s) \<Longrightarrow> no_overflow s cs \<Longrightarrow> gate_run s cs = Inr s' \<Longrightarrow> 0 \<le> sint (count s')"
proof (induction cs arbitrary: s)
  case Nil
  then show ?case by simp
next
  case (Cons c cs)
  from Cons.prems(3) obtain s1 where c: "do_gate_call s c = Inr s1" and r: "gate_run s1 cs = Inr s'"
    by (auto split: sum.splits)
  from Cons.prems(2) c have b: "c = Signal \<longrightarrow> sint (count s) < 2 ^ 31 - 1" and n: "no_overflow s1 cs"
    by simp_all
  from Cons.prems(1) c b have "0 \<le> sint (count s1)" by (rule gate_call_nonneg)
  then show ?case using n r by (rule Cons.IH)
qed

text \<open>
  Claim C8, as the code has it. For a gate created with an initial count \<open>c \<ge> 0\<close> (0 when
  none is given), after every completed sequence of \<^verbatim>\<open>signal()\<close> and \<^verbatim>\<open>wait()\<close> calls of one
  thread in which no \<^verbatim>\<open>signal()\<close> finds the counter at \<^verbatim>\<open>INT_MAX\<close>, the counter is \<open>\<ge> 0\<close>.
\<close>

theorem gate_count_nonneg:
  assumes "0 \<le> sint c" and "no_overflow (semaphore_new c) cs"
    and "gate_run (semaphore_new c) cs = Inr s"
  shows "0 \<le> sint (count s)"
  using assms gate_run_nonneg [of "semaphore_new c" cs s]
  by (simp add: semaphore_new_def)

theorem gate_count_nonneg_witness:
  "gate_run (semaphore_new 1) [Wait, Signal, Signal, Wait] = Inr (semaphore_new 1) \<and>
   0 \<le> sint (count (semaphore_new 1))"
proof -
  have r: "gate_run (semaphore_new 1) [Wait, Signal, Signal, Wait] = Inr (semaphore_new 1)"
    by (simp add: semaphore_new_def wait_def signal_def)
  have n: "no_overflow (semaphore_new 1) [Wait, Signal, Signal, Wait]"
    by (simp add: semaphore_new_def wait_def signal_def)
  have "(0::int) \<le> sint (1 :: 32 word)" by simp
  then have "0 \<le> sint (count (semaphore_new 1))"
    using n r by (rule gate_count_nonneg)
  with r show ?thesis by simp
qed

text \<open>
  Claim C8 as stated, for every gate, fails: the constructor takes any \<^verbatim>\<open>int\<close>, so
  \<^verbatim>\<open>semaphore(-1)\<close> starts below 0; \<^verbatim>\<open>wait()\<close> returns whenever the counter is not 0, so it
  takes that gate from \<open>-1\<close> to \<open>-2\<close>; and \<^verbatim>\<open>signal()\<close> on \<^verbatim>\<open>semaphore(INT_MAX)\<close> wraps the
  counter to \<^verbatim>\<open>INT_MIN\<close>.
\<close>

theorem gate_count_nonneg_counterexample:
  "sint (count (semaphore_new (- 1))) < 0 \<and>
   gate_run (semaphore_new (- 1)) [Wait] = Inr (semaphore_new (- 2)) \<and>
   sint (count (semaphore_new (- 2))) < 0 \<and>
   sint (count (signal (semaphore_new (2 ^ 31 - 1)))) < 0"
  by (simp add: semaphore_new_def wait_def signal_def)

section \<open>Equality of iterators and the end sentinel\<close>

lemma begin_twice:
  "begin_it (foldl push_back (new_queue 0) [1, 2::nat]) =
     Inr (foldl push_back (new_queue 0) [2], \<lparr>value_it = Some 1, detach_flag = False, end_flag = False\<rparr>) \<and>
   begin_it (foldl push_back (new_queue 0) [2::nat]) =
     Inr (new_queue 0, \<lparr>value_it = Some 2, detach_flag = False, end_flag = False\<rparr>)"
  by (simp add: begin_it_def consumer_iterator_new_def op_inc_def is_detached_def
      pop_front_def wait_def push_back_def signal_def new_queue_def semaphore_new_def)

text \<open>
  Claim C3, as the code has it. For all consumer iterators \<open>a\<close> and \<open>b\<close>, \<^verbatim>\<open>a == b\<close> holds if
  and only if \<open>a\<close> and \<open>b\<close> are in the same state: both in the end state, or both primed.
  \<^verbatim>\<open>a != b\<close> is its negation, and \<^verbatim>\<open>a == end()\<close> holds if and only if \<open>a\<close> is in the end
  state.
\<close>

theorem iterator_equality:
  "(op_eq a b \<longleftrightarrow> (end_flag a \<and> end_flag b) \<or> (\<not> end_flag a \<and> \<not> end_flag b)) \<and>
   (op_neq a b \<longleftrightarrow> \<not> op_eq a b) \<and>
   (\<exists>e. end_it q = Inr (q, e) \<and> (op_eq a e \<longleftrightarrow> end_flag a))"
  by (auto simp: op_eq_def op_neq_def end_it_eq)

theorem iterator_equality_witness:
  "op_eq \<lparr>value_it = Some (1::nat), detach_flag = False, end_flag = False\<rparr>
         \<lparr>value_it = Some 2, detach_flag = False, end_flag = False\<rparr> \<and>
   \<not> op_eq \<lparr>value_it = Some (1::nat), detach_flag = False, end_flag = False\<rparr>
           \<lparr>value_it = None, detach_flag = False, end_flag = True\<rparr>"
  using iterator_equality
    [of "\<lparr>value_it = Some (1::nat), detach_flag = False, end_flag = False\<rparr>"
        "\<lparr>value_it = Some 2, detach_flag = False, end_flag = False\<rparr>" "new_queue 0"]
  by (simp add: end_it_eq)

text \<open>
  Claim C3 as stated fails for the two iterators that two calls of \<^verbatim>\<open>begin()\<close> give on a
  queue holding 1 and 2: both are primed, they hold different values, and they compare
  equal.
\<close>

theorem iterator_equality_counterexample:
  "begin_it (foldl push_back (new_queue 0) [1, 2::nat]) =
     Inr (foldl push_back (new_queue 0) [2],
          \<lparr>value_it = Some 1, detach_flag = False, end_flag = False\<rparr>) \<and>
   begin_it (foldl push_back (new_queue 0) [2::nat]) =
     Inr (new_queue 0, \<lparr>value_it = Some 2, detach_flag = False, end_flag = False\<rparr>) \<and>
   op_eq \<lparr>value_it = Some (1::nat), detach_flag = False, end_flag = False\<rparr>
         \<lparr>value_it = Some 2, detach_flag = False, end_flag = False\<rparr> \<and>
   \<not> (end_flag \<lparr>value_it = Some (1::nat), detach_flag = False, end_flag = False\<rparr> \<and>
      end_flag \<lparr>value_it = Some (2::nat), detach_flag = False, end_flag = False\<rparr>)"
  using begin_twice by (simp add: op_eq_def)

lemma op_dec_detached_empty:
  "detach_flag it \<Longrightarrow> data q = [] \<Longrightarrow> op_dec q it = Inr (q, it\<lparr>end_flag := True\<rparr>)"
  by (simp add: op_dec_def is_detached_def size_bq_def)

text \<open>
  Claim C10. \<^verbatim>\<open>rend()\<close> is \<^verbatim>\<open>end()\<close>; \<^verbatim>\<open>end()\<close> returns an iterator in the end state and the
  queue as it was, sequence and gate; and any two iterators in the end state compare
  equal. An iterator carries no direction: the same end state is reached by \<^verbatim>\<open>operator++\<close>
  and by \<^verbatim>\<open>operator--\<close>.
\<close>

theorem rend_is_end:
  assumes "end_flag a" and "end_flag b"
  shows "rend q = end_it q \<and>
         end_it q = Inr (q, \<lparr>value_it = None, detach_flag = False, end_flag = True\<rparr>) \<and>
         op_eq a b \<and>
         op_eq a \<lparr>value_it = None, detach_flag = False, end_flag = True\<rparr>"
  using assms by (simp add: rend_def end_it_eq op_eq_def)

theorem rend_is_end_witness:
  "op_inc (new_queue 0) \<lparr>value_it = Some (5::nat), detach_flag = True, end_flag = False\<rparr> =
     Inr (new_queue 0, \<lparr>value_it = Some 5, detach_flag = True, end_flag = True\<rparr>) \<and>
   op_dec (new_queue 0) \<lparr>value_it = Some (7::nat), detach_flag = True, end_flag = False\<rparr> =
     Inr (new_queue 0, \<lparr>value_it = Some 7, detach_flag = True, end_flag = True\<rparr>) \<and>
   op_eq \<lparr>value_it = Some (5::nat), detach_flag = True, end_flag = True\<rparr>
         \<lparr>value_it = Some 7, detach_flag = True, end_flag = True\<rparr> \<and>
   rend (new_queue 0 :: nat blocking_queue) = end_it (new_queue 0) \<and>
   end_it (new_queue 0 :: nat blocking_queue) =
     Inr (new_queue 0, \<lparr>value_it = None, detach_flag = False, end_flag = True\<rparr>)"
proof -
  have a: "end_flag \<lparr>value_it = Some (5::nat), detach_flag = True, end_flag = True\<rparr>"
    and b: "end_flag \<lparr>value_it = Some (7::nat), detach_flag = True, end_flag = True\<rparr>"
    by simp_all
  have "data (new_queue 0 :: nat blocking_queue) = []"
    by (simp add: new_queue_def)
  then show ?thesis
    using rend_is_end [OF a b, of "new_queue 0 :: nat blocking_queue"]
    by (simp add: op_inc_detached_empty op_dec_detached_empty)
qed

section \<open>begin_detached() on an empty queue\<close>

text \<open>
  Claim C4, as the code has it. On a queue that is empty at the call (reached from a fresh
  one by any completed calls), \<^verbatim>\<open>begin_detached()\<close> does not return while nothing is
  pushed: it builds its iterator with \<^verbatim>\<open>begin()\<close>, whose constructor pops before
  \<^verbatim>\<open>detach()\<close> has set the flag, so no iterator is produced and no element is yielded. The
  emptiness check of a detached iterator applies to the advances after construction:
  \<^verbatim>\<open>operator++\<close> on a detached iterator over the empty queue reaches the end state and
  leaves the queue as it was.
\<close>

theorem begin_detached_empty:
  assumes "run (new_queue z) cs = Inr q" and "data q = []"
  shows "begin_detached q = Inl Blocked \<and>
         op_inc q (detach it True) = Inr (q, (detach it True)\<lparr>end_flag := True\<rparr>)"
proof -
  from assms(1) have "mirrors q"
    using mirrors_run [OF mirrors_new, of z cs q] by simp
  with assms(2) have "count (e_sem q) = 0"
    by (simp add: mirrors_def)
  then have "wait (e_sem q) = Inl Blocked"
    by (rule wait_zero)
  then have "pop_front q = Inl Blocked"
    by (simp add: pop_front_def)
  then have "begin_detached q = Inl Blocked"
    by (simp add: begin_detached_def begin_it_def consumer_iterator_new_def op_inc_def
        is_detached_def)
  moreover from assms(2) have
    "op_inc q (detach it True) = Inr (q, (detach it True)\<lparr>end_flag := True\<rparr>)"
    by (simp add: op_inc_detached_empty detach_def)
  ultimately show ?thesis by simp
qed

theorem begin_detached_empty_witness:
  "run (new_queue 2) [Push_back (5::nat), Pop_back] = Inr (new_queue 2) \<and>
   begin_detached (new_queue 2 :: nat blocking_queue) = Inl Blocked \<and>
   op_inc (new_queue 2 :: nat blocking_queue)
       (detach \<lparr>value_it = Some 5, detach_flag = False, end_flag = False\<rparr> True) =
     Inr (new_queue 2, \<lparr>value_it = Some 5, detach_flag = True, end_flag = True\<rparr>)"
proof -
  have r: "run (new_queue 2) [Push_back (5::nat), Pop_back] = Inr (new_queue 2)"
    by (simp add: push_back_def pop_back_def wait_def signal_def new_queue_def semaphore_new_def)
  have d: "data (new_queue 2 :: nat blocking_queue) = []"
    by (simp add: new_queue_def)
  from begin_detached_empty [OF r d, of "\<lparr>value_it = Some 5, detach_flag = False, end_flag = False\<rparr>"] r
  show ?thesis by (simp add: detach_def)
qed

text \<open>
  Claim C4 as stated fails on a fresh queue: \<^verbatim>\<open>begin_detached()\<close> gives no iterator.
\<close>

theorem begin_detached_empty_counterexample:
  "begin_detached (new_queue 0 :: nat blocking_queue) = Inl Blocked"
  by (simp add: begin_detached_def begin_it_def consumer_iterator_new_def op_inc_def
      is_detached_def pop_front_def wait_def new_queue_def semaphore_new_def)

section \<open>A wait() that finds the counter at 0\<close>

lemma step_first:
  "thread_step g p = Some (g', p') \<Longrightarrow> step (g, p # ps) (g', p' # ps)"
  using step.intros [of 0 "p # ps" g g' p'] by simp

lemma blocked_others:
  "list_all (\<lambda>p. p = Signal_lock_mtx \<or> p = Wait_lock_mtx) others \<Longrightarrow> i < length others \<Longrightarrow>
   mtx g \<Longrightarrow> thread_step g (others ! i) = None"
  by (auto simp: list_all_length)

lemma wait_holds_mtx_step:
  assumes "wait_holds_mtx c" and "step c c'"
  shows "wait_holds_mtx c'"
  using assms(2)
proof cases
  case (1 i ps g g' p')
  from assms(1) 1(1) obtain w others where ps: "ps = w # others"
    and g: "count g = 0" "mtx g" and w: "w = Wait_test \<or> w = Wait_lock_sig"
    and o: "list_all (\<lambda>p. p = Signal_lock_mtx \<or> p = Wait_lock_mtx) others"
    by (auto simp: wait_holds_mtx_def split: list.splits)
  show ?thesis
  proof (cases i)
    case 0
    with 1(4) ps w g have "count g' = 0 \<and> mtx g' \<and> (p' = Wait_test \<or> p' = Wait_lock_sig)"
      by (auto split: if_splits)
    with 0 ps o 1(2) show ?thesis
      by (simp add: wait_holds_mtx_def)
  next
    case (Suc j)
    with 1(3) ps have "j < length others" by simp
    with o g(2) have "thread_step g (others ! j) = None"
      by (intro blocked_others)
    with 1(4) ps Suc show ?thesis by simp
  qed
qed

lemma wait_holds_mtx_steps:
  "step\<^sup>*\<^sup>* c c' \<Longrightarrow> wait_holds_mtx c \<Longrightarrow> wait_holds_mtx c'"
  by (induction rule: rtranclp_induct) (auto intro: wait_holds_mtx_step)

text \<open>
  Once a \<^verbatim>\<open>wait()\<close> holds \<^verbatim>\<open>mtx_\<close> with the counter at 0, no call of any thread returns,
  whatever the other threads are: the counter stays 0 and every \<^verbatim>\<open>signal()\<close> stays at its
  first statement.
\<close>

lemma blocked_wait_never_returns:
  assumes "wait_holds_mtx c" and "step\<^sup>*\<^sup>* c (g, ps)"
  shows "count g = 0 \<and> Returned \<notin> set ps"
proof -
  from assms(2,1) have "wait_holds_mtx (g, ps)"
    by (rule wait_holds_mtx_steps)
  then show ?thesis
    by (auto simp: wait_holds_mtx_def list_all_iff split: list.splits)
qed

text \<open>
  Claim C9 at the input where the code breaks it: a gate with counter 0, a thread that
  calls \<^verbatim>\<open>wait()\<close> and a thread that calls \<^verbatim>\<open>signal()\<close>. When the waiting thread takes
  \<^verbatim>\<open>mtx_\<close> first, it keeps \<^verbatim>\<open>mtx_\<close> while it locks \<^verbatim>\<open>sig_\<close> a second time; the signalling
  thread waits for \<^verbatim>\<open>mtx_\<close>; no thread can move, the counter is still 0, and neither call
  has returned.
\<close>

theorem wait_then_signal_deadlocks:
  "step\<^sup>*\<^sup>* (shared_new 0, [Wait_lock_mtx, Signal_lock_mtx])
          (\<lparr>count = 0, sig = True, mtx = True\<rparr>, [Wait_lock_sig, Signal_lock_mtx]) \<and>
   \<not> (\<exists>c. step (\<lparr>count = 0, sig = True, mtx = True\<rparr>, [Wait_lock_sig, Signal_lock_mtx]) c)"
proof
  have "step (shared_new 0, [Wait_lock_mtx, Signal_lock_mtx])
             (\<lparr>count = 0, sig = False, mtx = True\<rparr>, [Wait_test, Signal_lock_mtx])"
    by (rule step_first) (simp add: shared_new_def)
  moreover have "step (\<lparr>count = 0, sig = False, mtx = True\<rparr>, [Wait_test, Signal_lock_mtx])
             (\<lparr>count = 0, sig = False, mtx = True\<rparr>, [Wait_lock_sig, Signal_lock_mtx])"
    by (rule step_first) simp
  moreover have "step (\<lparr>count = 0, sig = False, mtx = True\<rparr>, [Wait_lock_sig, Signal_lock_mtx])
             (\<lparr>count = 0, sig = True, mtx = True\<rparr>, [Wait_test, Signal_lock_mtx])"
    by (rule step_first) simp
  moreover have "step (\<lparr>count = 0, sig = True, mtx = True\<rparr>, [Wait_test, Signal_lock_mtx])
             (\<lparr>count = 0, sig = True, mtx = True\<rparr>, [Wait_lock_sig, Signal_lock_mtx])"
    by (rule step_first) simp
  ultimately show "step\<^sup>*\<^sup>* (shared_new 0, [Wait_lock_mtx, Signal_lock_mtx])
          (\<lparr>count = 0, sig = True, mtx = True\<rparr>, [Wait_lock_sig, Signal_lock_mtx])"
    by (meson rtranclp.rtrancl_into_rtrancl rtranclp.rtrancl_refl)
next
  show "\<not> (\<exists>c. step (\<lparr>count = 0, sig = True, mtx = True\<rparr>, [Wait_lock_sig, Signal_lock_mtx]) c)"
  proof
    assume "\<exists>c. step (\<lparr>count = 0, sig = True, mtx = True\<rparr>, [Wait_lock_sig, Signal_lock_mtx]) c"
    then obtain c where "step (\<lparr>count = 0, sig = True, mtx = True\<rparr>, [Wait_lock_sig, Signal_lock_mtx]) c"
      ..
    then show False
    proof cases
      case (1 i g' p')
      from 1(2) have "i = 0 \<or> i = 1" by auto
      with 1(3) show False by auto
    qed
  qed
qed

end
